theory Spec2Isabelle
  imports Main "HOL-Library.Word"
begin

section \<open>split\_jpeg.py: splitting concatenated JPEG streams\<close>

text \<open>
  The blob is a Python \<^verbatim>\<open>bytes\<close> object: a list of 8-bit words. Offsets are Python
  integers; \<^verbatim>\<open>parse_one_jpeg\<close> takes its \<^verbatim>\<open>start\<close> as an \<open>int\<close> and rejects the
  negative ones, so that every offset behind that guard is a \<open>nat\<close>.
\<close>

type_synonym byte = "8 word"

subsection \<open>Exceptions\<close>

text \<open>
  The six \<^verbatim>\<open>raise ValueError(...)\<close> sites of \<^verbatim>\<open>parse_one_jpeg\<close>, named by their
  messages (the offset formatted into the last message is left out). \<open>IndexError\<close>
  is what \<^verbatim>\<open>data[i]\<close> raises out of range, \<open>StructError\<close> what \<^verbatim>\<open>struct.unpack\<close>
  raises on a buffer that is not two bytes long; neither is a \<^verbatim>\<open>ValueError\<close>.
\<close>

datatype message =
    Start_is_not_at_SOI
  | Truncated_SOS_length
  | Bad_SOS_seglen
  | Truncated_segment_length
  | Bad_segment_seglen
  | EOI_not_found

datatype exn = ValueError message | IndexError | StructError

text \<open>The error taxonomy of the specification, as sets of the source's messages.\<close>

definition TruncatedSegment :: "exn set" where
  "TruncatedSegment = {ValueError Truncated_SOS_length, ValueError Truncated_segment_length}"

definition InvalidSegmentLength :: "exn set" where
  "InvalidSegmentLength = {ValueError Bad_SOS_seglen, ValueError Bad_segment_seglen}"

definition UnterminatedRecord :: "exn set" where
  "UnterminatedRecord = {ValueError EOI_not_found}"

subsection \<open>Constants and byte helpers\<close>

definition SOI :: "byte list" where
  "SOI = [0xFF, 0xD8]"

definition SOS :: byte where
  "SOS = 0xDA"

definition NO_LEN :: "byte set" where
  "NO_LEN = set ([0xD8, 0xD9] @ map of_nat [0xD0 ..< 0xD8] @ [0x01])"

text \<open>\<^verbatim>\<open>data[i]\<close> for an offset \<open>i \<ge> 0\<close>.\<close>

definition index :: "byte list \<Rightarrow> nat \<Rightarrow> exn + byte" where
  "index data i = (if i < length data then Inr (data ! i) else Inl IndexError)"

text \<open>\<^verbatim>\<open>data[a:b]\<close> for offsets \<open>0 \<le> a\<close>: a slice never raises, it is cut at the end.\<close>

definition slice :: "byte list \<Rightarrow> nat \<Rightarrow> nat \<Rightarrow> byte list" where
  "slice data a b = take (b - a) (drop a data)"

text \<open>\<^verbatim>\<open>struct.unpack(">H", b)[0]\<close>: a big-endian unsigned 16-bit integer.\<close>

definition u16be :: "byte list \<Rightarrow> exn + nat" where
  "u16be b = (case b of [hi, lo] \<Rightarrow> Inr (unat hi * 256 + unat lo) | _ \<Rightarrow> Inl StructError)"

text \<open>
  \<^verbatim>\<open>data.find(SOI, start)\<close> for \<open>start \<ge> 0\<close>: the lowest offset \<open>k \<ge> start\<close> with
  \<^verbatim>\<open>data[k:k+2] == SOI\<close>; Python's \<open>-1\<close> is \<open>None\<close>.
\<close>

fun find_SOI :: "byte list \<Rightarrow> nat option" where
  "find_SOI [] = None"
| "find_SOI (x # xs) =
     (if take 2 (x # xs) = SOI then Some 0 else map_option Suc (find_SOI xs))"

definition find_next_soi :: "byte list \<Rightarrow> nat \<Rightarrow> nat option" where
  "find_next_soi data start = map_option (\<lambda>k. start + k) (find_SOI (drop start data))"

subsection \<open>The record scanner: \<^verbatim>\<open>parse_one_jpeg\<close>\<close>

text \<open>The fill-byte loop \<^verbatim>\<open>while j < n and data[j] == 0xFF: j += 1\<close>.\<close>

function skip_fill :: "byte list \<Rightarrow> nat \<Rightarrow> nat" where
  "skip_fill data j =
     (if j < length data \<and> data ! j = 0xFF then skip_fill data (j + 1) else j)"
  by pat_completeness auto
termination
  by (relation "measure (\<lambda>(data, j). length data - j)") auto

declare skip_fill.simps [simp del]

text \<open>
  One pass through the body of \<^verbatim>\<open>while i < n - 1\<close>, from the cursor \<open>i\<close> and the flag
  \<open>in_scan\<close>: the body ends in \<^verbatim>\<open>continue\<close> (or falls off its end) with a new cursor and
  flag, in \<^verbatim>\<open>break\<close>, in \<^verbatim>\<open>return i\<close>, or in a raise.
\<close>

datatype step = Continue nat bool | Break | Return nat | Raise exn

definition loop_body :: "byte list \<Rightarrow> nat \<Rightarrow> bool \<Rightarrow> step" where
  "loop_body data i in_scan =
     (let n = length data in
      case index data i of
        Inl e \<Rightarrow> Raise e
      | Inr b \<Rightarrow>
         (if b \<noteq> 0xFF then Continue (i + 1) in_scan
          else
            let j = skip_fill data i in
            if j \<ge> n then Break
            else
              (case index data j of
                 Inl e \<Rightarrow> Raise e
               | Inr marker \<Rightarrow>
                  (if in_scan \<and> marker = 0x00 then Continue (j + 1) in_scan
                   else
                     let i = j + 1 in
                     if marker = 0xD9 then Return i
                     else if marker = SOS then
                       (if i + 2 > n then Raise (ValueError Truncated_SOS_length)
                        else
                          (case u16be (slice data i (i + 2)) of
                             Inl e \<Rightarrow> Raise e
                           | Inr seglen \<Rightarrow>
                              (if seglen < 2 then Raise (ValueError Bad_SOS_seglen)
                               else Continue (i + seglen) True)))
                     else if marker \<in> NO_LEN then Continue i in_scan
                     else
                       (if i + 2 > n then Raise (ValueError Truncated_segment_length)
                        else
                          (case u16be (slice data i (i + 2)) of
                             Inl e \<Rightarrow> Raise e
                           | Inr seglen \<Rightarrow>
                              (if seglen < 2 then Raise (ValueError Bad_segment_seglen)
                               else Continue (i + seglen) in_scan)))))))"

lemma skip_fill_ge: "j \<le> skip_fill data j"
proof (induction data j rule: skip_fill.induct)
  case (1 data j)
  show ?case
  proof (cases "j < length data \<and> data ! j = 0xFF")
    case True
    with 1 have "j + 1 \<le> skip_fill data (j + 1)" by simp
    with True show ?thesis by (subst skip_fill.simps) simp
  next
    case False
    then have "skip_fill data j = j" by (subst skip_fill.simps) auto
    then show ?thesis by simp
  qed
qed

lemma skip_fill_gt:
  assumes "i < length data" and "data ! i = 0xFF"
  shows "i < skip_fill data i"
proof -
  have "skip_fill data i = skip_fill data (i + 1)"
    using assms by (subst skip_fill.simps) simp
  moreover have "i + 1 \<le> skip_fill data (i + 1)" by (rule skip_fill_ge)
  ultimately show ?thesis by simp
qed

lemma loop_body_Continue_gt:
  assumes "loop_body data i in_scan = Continue i' in_scan'"
  shows "i < i'"
proof -
  have len: "i < length data"
  proof (rule ccontr)
    assume "\<not> i < length data"
    then have "loop_body data i in_scan = Raise IndexError"
      by (simp add: loop_body_def index_def)
    with assms show False by simp
  qed
  show ?thesis
  proof (cases "data ! i = 0xFF")
    case False
    with assms len show ?thesis by (simp add: loop_body_def index_def)
  next
    case True
    with len have "i < skip_fill data i" by (rule skip_fill_gt)
    with assms len True show ?thesis
      by (auto simp: loop_body_def index_def Let_def split: if_splits sum.splits)
  qed
qed

text \<open>
  The loop \<^verbatim>\<open>while i < n - 1\<close> and the raise behind it. With \<open>i \<ge> 0\<close> the test
  \<^verbatim>\<open>i < n - 1\<close> over Python's integers is the same over \<open>nat\<close> (both are false for
  \<open>n = 0\<close>).
\<close>

function scan_loop :: "byte list \<Rightarrow> nat \<Rightarrow> bool \<Rightarrow> exn + nat" where
  "scan_loop data i in_scan =
     (if i < length data - 1 then
        (case loop_body data i in_scan of
           Continue i' in_scan' \<Rightarrow> scan_loop data i' in_scan'
         | Break \<Rightarrow> Inl (ValueError EOI_not_found)
         | Return e \<Rightarrow> Inr e
         | Raise x \<Rightarrow> Inl x)
      else Inl (ValueError EOI_not_found))"
  by pat_completeness auto
termination
proof (relation "measure (\<lambda>(data, i, in_scan). length data - i)")
  show "wf (measure (\<lambda>(data, i, in_scan). length data - i))" by simp
next
  fix data :: "byte list" and i :: nat and in_scan :: bool and i' :: nat and in_scan' :: bool
  assume "i < length data - 1" and "loop_body data i in_scan = Continue i' in_scan'"
  then have "i < length data" and "i < i'"
    by (simp_all add: loop_body_Continue_gt)
  then show "((data, i', in_scan'), (data, i, in_scan))
      \<in> measure (\<lambda>(data, i, in_scan). length data - i)"
    by simp
qed

declare scan_loop.simps [simp del]

definition parse_one_jpeg :: "byte list \<Rightarrow> int \<Rightarrow> exn + nat" where
  "parse_one_jpeg data start =
     (let n = int (length data) in
      if start < 0 \<or> start + 2 > n \<or> slice data (nat start) (nat start + 2) \<noteq> SOI
      then Inl (ValueError Start_is_not_at_SOI)
      else scan_loop data (nat start + 2) False)"

text \<open>
  The same loop, keeping the states \<open>(i, in_scan)\<close> at which its test \<^verbatim>\<open>i < n - 1\<close> is
  evaluated, in order: the first is the state the loop is entered with, and each next
  one is what one pass through the body leaves.
\<close>

function scan_trace :: "byte list \<Rightarrow> nat \<Rightarrow> bool \<Rightarrow> (nat \<times> bool) list" where
  "scan_trace data i in_scan =
     (i, in_scan) #
     (if i < length data - 1 then
        (case loop_body data i in_scan of
           Continue i' in_scan' \<Rightarrow> scan_trace data i' in_scan'
         | Break \<Rightarrow> []
         | Return e \<Rightarrow> []
         | Raise x \<Rightarrow> [])
      else [])"
  by pat_completeness auto
termination
proof (relation "measure (\<lambda>(data, i, in_scan). length data - i)")
  show "wf (measure (\<lambda>(data, i, in_scan). length data - i))" by simp
next
  fix data :: "byte list" and i :: nat and in_scan :: bool and i' :: nat and in_scan' :: bool
  assume "i < length data - 1" and "loop_body data i in_scan = Continue i' in_scan'"
  then have "i < length data" and "i < i'"
    by (simp_all add: loop_body_Continue_gt)
  then show "((data, i', in_scan'), (data, i, in_scan))
      \<in> measure (\<lambda>(data, i, in_scan). length data - i)"
    by simp
qed

declare scan_trace.simps [simp del]

subsection \<open>Facts about the scanner's building blocks\<close>

lemma NO_LEN_iff:
  "m \<in> NO_LEN \<longleftrightarrow> m \<in> {0xD8, 0xD9, 0xD0, 0xD1, 0xD2, 0xD3, 0xD4, 0xD5, 0xD6, 0xD7, 0x01}"
  by (auto simp: NO_LEN_def upt_rec)

lemma skip_fill_run:
  "\<forall>k. j \<le> k \<and> k < skip_fill data j \<longrightarrow> data ! k = 0xFF"
proof (induction data j rule: skip_fill.induct)
  case (1 data j)
  show ?case
  proof (cases "j < length data \<and> data ! j = 0xFF")
    case True
    then have eq: "skip_fill data j = skip_fill data (j + 1)"
      by (subst skip_fill.simps) simp
    from 1 True have ih: "\<forall>k. j + 1 \<le> k \<and> k < skip_fill data (j + 1) \<longrightarrow> data ! k = 0xFF"
      by simp
    show ?thesis
    proof (intro allI impI)
      fix k assume k: "j \<le> k \<and> k < skip_fill data j"
      show "data ! k = 0xFF"
      proof (cases "k = j")
        case True
        with \<open>j < length data \<and> data ! j = 0xFF\<close> show ?thesis by simp
      next
        case False
        with k eq have "j + 1 \<le> k \<and> k < skip_fill data (j + 1)" by simp
        with ih show ?thesis by blast
      qed
    qed
  next
    case False
    then have "skip_fill data j = j" by (subst skip_fill.simps) auto
    then show ?thesis by auto
  qed
qed

lemma skip_fill_stop:
  "skip_fill data j < length data \<Longrightarrow> data ! skip_fill data j \<noteq> 0xFF"
proof (induction data j rule: skip_fill.induct)
  case (1 data j)
  show ?case
  proof (cases "j < length data \<and> data ! j = 0xFF")
    case True
    then have eq: "skip_fill data j = skip_fill data (j + 1)"
      by (subst skip_fill.simps) simp
    with 1 True show ?thesis by simp
  next
    case False
    then have eq: "skip_fill data j = j" by (subst skip_fill.simps) auto
    with False "1.prems" show ?thesis by auto
  qed
qed

lemma skip_fill_le_length: "j \<le> length data \<Longrightarrow> skip_fill data j \<le> length data"
proof (induction data j rule: skip_fill.induct)
  case (1 data j)
  show ?case
  proof (cases "j < length data \<and> data ! j = 0xFF")
    case True
    then have eq: "skip_fill data j = skip_fill data (j + 1)"
      by (subst skip_fill.simps) simp
    with 1 True show ?thesis by simp
  next
    case False
    then have eq: "skip_fill data j = j" by (subst skip_fill.simps) auto
    with "1.prems" show ?thesis by simp
  qed
qed

text \<open>\<open>skip_fill\<close> stops at the first offset from \<open>i\<close> on that holds no \<open>0xFF\<close>, or at the end.\<close>
lemma skip_fill_eq:
  assumes "i \<le> j" and "\<forall>k. i \<le> k \<and> k < j \<longrightarrow> k < length data \<and> data ! k = 0xFF"
    and "j < length data \<longrightarrow> data ! j \<noteq> 0xFF"
  shows "skip_fill data i = j"
  using assms
proof (induction "j - i" arbitrary: i)
  case 0
  then have "i = j" by simp
  with 0 show ?case by (subst skip_fill.simps) auto
next
  case (Suc d)
  then have "i < j" by simp
  with Suc.prems have "i < length data \<and> data ! i = 0xFF" by simp
  then have "skip_fill data i = skip_fill data (i + 1)" by (subst skip_fill.simps) simp
  moreover have "skip_fill data (i + 1) = j"
    using Suc by (intro Suc.hyps(1)) auto
  ultimately show ?case by simp
qed


lemma u16be_slice:
  assumes "i + 2 \<le> length data"
  shows "u16be (slice data i (i + 2)) = Inr (unat (data ! i) * 256 + unat (data ! (i + 1)))"
proof -
  from assms have "drop i data = data ! i # data ! (i + 1) # drop (i + 2) data"
    by (simp add: Cons_nth_drop_Suc)
  then have "slice data i (i + 2) = [data ! i, data ! (i + 1)]"
    by (simp add: slice_def)
  then show ?thesis by (simp add: u16be_def)
qed

text \<open>What the body does at an escape byte, by the category byte behind the fill run.\<close>

lemma loop_body_not_escape:
  assumes "i < length data" and "data ! i \<noteq> 0xFF"
  shows "loop_body data i in_scan = Continue (i + 1) in_scan"
  using assms by (simp add: loop_body_def index_def)

lemma loop_body_escape:
  assumes "i < length data" and "data ! i = 0xFF"
  shows "loop_body data i in_scan =
     (let j = skip_fill data i; m = data ! j in
      if j \<ge> length data then Break
      else if in_scan \<and> m = 0x00 then Continue (j + 1) in_scan
      else if m = 0xD9 then Return (j + 1)
      else if m = SOS then
        (if j + 3 > length data then Raise (ValueError Truncated_SOS_length)
         else if unat (data ! (j + 1)) * 256 + unat (data ! (j + 2)) < 2
           then Raise (ValueError Bad_SOS_seglen)
         else Continue (j + 1 + (unat (data ! (j + 1)) * 256 + unat (data ! (j + 2)))) True)
      else if m \<in> NO_LEN then Continue (j + 1) in_scan
      else
        (if j + 3 > length data then Raise (ValueError Truncated_segment_length)
         else if unat (data ! (j + 1)) * 256 + unat (data ! (j + 2)) < 2
           then Raise (ValueError Bad_segment_seglen)
         else Continue (j + 1 + (unat (data ! (j + 1)) * 256 + unat (data ! (j + 2)))) in_scan))"
proof (cases "skip_fill data i \<ge> length data")
  case True
  with assms show ?thesis by (simp add: loop_body_def index_def Let_def)
next
  case False
  show ?thesis
  proof (cases "skip_fill data i + 3 > length data")
    case True
    with False assms show ?thesis by (simp add: loop_body_def index_def Let_def)
  next
    case long: False
    then have "u16be (slice data (skip_fill data i + 1) (skip_fill data i + 1 + 2)) =
       Inr (unat (data ! (skip_fill data i + 1)) * 256 + unat (data ! (skip_fill data i + 1 + 1)))"
      by (intro u16be_slice) simp
    with False long assms show ?thesis
      by (simp add: loop_body_def index_def Let_def add.assoc)
  qed
qed

lemma loop_body_Return:
  assumes "loop_body data i in_scan = Return e"
  shows "i + 2 \<le> e \<and> e \<le> length data \<and> data ! (e - 1) = 0xD9 \<and> data ! (e - 2) = 0xFF"
proof -
  have len: "i < length data"
  proof (rule ccontr)
    assume "\<not> i < length data"
    then have "loop_body data i in_scan = Raise IndexError"
      by (simp add: loop_body_def index_def)
    with assms show False by simp
  qed
  have esc: "data ! i = 0xFF"
  proof (rule ccontr)
    assume "data ! i \<noteq> 0xFF"
    with len assms show False by (simp add: loop_body_not_escape)
  qed
  define j where "j = skip_fill data i"
  from len esc have gt: "i < j" unfolding j_def by (rule skip_fill_gt)
  from assms have "j < length data \<and> data ! j = 0xD9 \<and> e = j + 1"
    unfolding loop_body_escape [OF len esc] j_def [symmetric] Let_def
    by (simp split: if_splits)
  moreover have "data ! (j - 1) = 0xFF"
    using skip_fill_run [of i data] gt unfolding j_def [symmetric] by simp
  ultimately show ?thesis using gt by simp
qed

lemma scan_loop_Inr:
  "scan_loop data i in_scan = Inr e \<Longrightarrow>
     i + 2 \<le> e \<and> e \<le> length data \<and> data ! (e - 1) = 0xD9 \<and> data ! (e - 2) = 0xFF"
proof (induction data i in_scan rule: scan_loop.induct)
  case (1 data i in_scan)
  from "1.prems" have run: "i < length data - 1"
    by (subst (asm) scan_loop.simps) (simp split: if_splits)
  show ?case
  proof (cases "loop_body data i in_scan")
    case (Continue i' in_scan')
    with "1.prems" run have "scan_loop data i' in_scan' = Inr e"
      by (subst (asm) scan_loop.simps) simp
    with "1.IH" [OF run Continue] have
      "i' + 2 \<le> e \<and> e \<le> length data \<and> data ! (e - 1) = 0xD9 \<and> data ! (e - 2) = 0xFF"
      by simp
    moreover from Continue have "i < i'" by (rule loop_body_Continue_gt)
    ultimately show ?thesis by simp
  next
    case Break
    with "1.prems" run show ?thesis by (subst (asm) scan_loop.simps) simp
  next
    case (Return e')
    with "1.prems" run have "e' = e" by (subst (asm) scan_loop.simps) simp
    with Return have "loop_body data i in_scan = Return e" by simp
    from loop_body_Return [OF this] show ?thesis .
  next
    case (Raise x)
    with "1.prems" run show ?thesis by (subst (asm) scan_loop.simps) simp
  qed
qed

lemma loop_body_Raise:
  assumes "loop_body data i in_scan = Raise x" and "i < length data - 1"
  shows "x \<in> ValueError ` {Truncated_SOS_length, Bad_SOS_seglen,
                            Truncated_segment_length, Bad_segment_seglen}"
proof -
  from assms(2) have len: "i < length data" by simp
  have esc: "data ! i = 0xFF"
  proof (rule ccontr)
    assume "data ! i \<noteq> 0xFF"
    with len assms show False by (simp add: loop_body_not_escape)
  qed
  from assms(1) show ?thesis
    unfolding loop_body_escape [OF len esc] Let_def
    by (auto split: if_splits)
qed

lemma scan_loop_Inl:
  "scan_loop data i in_scan = Inl x \<Longrightarrow>
     x \<in> ValueError ` {Truncated_SOS_length, Bad_SOS_seglen,
                       Truncated_segment_length, Bad_segment_seglen, EOI_not_found}"
proof (induction data i in_scan rule: scan_loop.induct)
  case (1 data i in_scan)
  show ?case
  proof (cases "i < length data - 1")
    case False
    with "1.prems" show ?thesis by (subst (asm) scan_loop.simps) auto
  next
    case run: True
    show ?thesis
    proof (cases "loop_body data i in_scan")
      case (Continue i' in_scan')
      with "1.prems" run have "scan_loop data i' in_scan' = Inl x"
        by (subst (asm) scan_loop.simps) simp
      with "1.IH" [OF run Continue] show ?thesis by simp
    next
      case Break
      with "1.prems" run show ?thesis by (subst (asm) scan_loop.simps) auto
    next
      case (Return e')
      with "1.prems" run show ?thesis by (subst (asm) scan_loop.simps) simp
    next
      case (Raise y)
      with "1.prems" run have "y = x" by (subst (asm) scan_loop.simps) simp
      with Raise run loop_body_Raise [of data i in_scan x] show ?thesis by blast
    qed
  qed
qed

lemma find_SOI_Some:
  "find_SOI xs = Some k \<Longrightarrow> k + 2 \<le> length xs \<and> take 2 (drop k xs) = SOI"
proof (induction xs arbitrary: k)
  case Nil
  then show ?case by simp
next
  case (Cons x xs)
  show ?case
  proof (cases "take 2 (x # xs) = SOI")
    case True
    with Cons.prems have "k = 0" by simp
    moreover from True have "2 \<le> length (x # xs)"
      by (cases xs) (auto simp: SOI_def)
    ultimately show ?thesis using True by simp
  next
    case False
    with Cons.prems obtain k' where k': "find_SOI xs = Some k'" "k = Suc k'"
      by auto
    with Cons.IH [of k'] show ?thesis by simp
  qed
qed

lemma find_SOI_first:
  "find_SOI xs = Some k \<Longrightarrow> k' < k \<Longrightarrow> take 2 (drop k' xs) \<noteq> SOI"
proof (induction xs arbitrary: k k')
  case Nil
  then show ?case by simp
next
  case (Cons x xs)
  show ?case
  proof (cases "take 2 (x # xs) = SOI")
    case True
    with Cons.prems show ?thesis by simp
  next
    case False
    with Cons.prems obtain m where m: "find_SOI xs = Some m" "k = Suc m"
      by auto
    show ?thesis
    proof (cases k')
      case 0
      with False show ?thesis by simp
    next
      case (Suc n)
      with Cons.prems m have "n < m" by simp
      with Cons.IH [OF m(1)] have "take 2 (drop n xs) \<noteq> SOI" by simp
      with Suc show ?thesis by simp
    qed
  qed
qed

lemma find_SOI_None:
  "find_SOI xs = None \<Longrightarrow> take 2 (drop k xs) \<noteq> SOI"
proof (induction xs arbitrary: k)
  case Nil
  then show ?case by (simp add: SOI_def)
next
  case (Cons x xs)
  then show ?case by (cases k) (auto split: if_splits)
qed

lemma find_next_soi_Some:
  assumes "find_next_soi data pos = Some soi"
  shows "pos \<le> soi \<and> soi + 2 \<le> length data \<and> slice data soi (soi + 2) = SOI"
proof -
  from assms obtain k where k: "find_SOI (drop pos data) = Some k" "soi = pos + k"
    by (auto simp: find_next_soi_def)
  from find_SOI_Some [OF k(1)] k(2) show ?thesis
    by (auto simp: slice_def add.commute)
qed

lemma parse_one_jpeg_Inr:
  assumes "parse_one_jpeg data start = Inr e"
  shows "0 \<le> start \<and> start + 4 \<le> int e \<and> e \<le> length data \<and>
         data ! (e - 1) = 0xD9 \<and> data ! (e - 2) = 0xFF"
proof -
  from assms have ok: "0 \<le> start" and "scan_loop data (nat start + 2) False = Inr e"
    by (auto simp: parse_one_jpeg_def Let_def split: if_splits)
  from scan_loop_Inr [OF this(2)] ok show ?thesis by auto
qed

subsection \<open>The blob splitter: \<^verbatim>\<open>split_concatenated_jpegs\<close>\<close>

text \<open>
  The loop \<^verbatim>\<open>while True\<close> with its state: the search position \<open>pos\<close>, the counter
  \<open>idx\<close> and the files written so far, in order. A file is kept as the pair
  \<open>(soi, end)\<close> of the range \<^verbatim>\<open>data[soi:end]\<close> written to it. The handler
  \<^verbatim>\<open>except ValueError\<close> catches the \<open>ValueError\<close>s only: any other exception leaves
  the function.
\<close>

type_synonym extracted = "nat \<times> nat"

function split_loop ::
  "byte list \<Rightarrow> nat \<Rightarrow> nat \<Rightarrow> extracted list \<Rightarrow> exn + nat \<times> extracted list" where
  "split_loop data pos idx out =
     (case find_next_soi data pos of
        None \<Rightarrow> Inr (idx, out)
      | Some soi \<Rightarrow>
         (case parse_one_jpeg data (int soi) of
            Inl e \<Rightarrow>
              (case e of
                 ValueError m \<Rightarrow> split_loop data (soi + 2) idx out
               | IndexError \<Rightarrow> Inl IndexError
               | StructError \<Rightarrow> Inl StructError)
          | Inr end' \<Rightarrow> split_loop data end' (idx + 1) (out @ [(soi, end')])))"
  by pat_completeness auto
termination
proof (relation "measure (\<lambda>(data, pos, idx, out). length data - pos)")
  show "wf (measure (\<lambda>(data, pos, idx, out). length data - pos))" by simp
next
  fix data :: "byte list" and pos idx :: nat and out :: "extracted list" and soi :: nat
  assume "find_next_soi data pos = Some soi"
  from find_next_soi_Some [OF this] have "pos \<le> soi" and "soi + 2 \<le> length data"
    by simp_all
  then show "((data, soi + 2, idx, out), (data, pos, idx, out))
      \<in> measure (\<lambda>(data, pos, idx, out). length data - pos)"
    by simp
next
  fix data :: "byte list" and pos idx :: nat and out :: "extracted list" and soi end' :: nat
  assume found: "find_next_soi data pos = Some soi"
    and parsed: "parse_one_jpeg data (int soi) = Inr end'"
  from find_next_soi_Some [OF found] parse_one_jpeg_Inr [OF parsed]
  have "pos \<le> soi" and "soi + 2 \<le> length data" and "int soi + 4 \<le> int end'"
    by simp_all
  then show "((data, end', idx + 1, out @ [(soi, end')]), (data, pos, idx, out))
      \<in> measure (\<lambda>(data, pos, idx, out). length data - pos)"
    by simp
qed

declare split_loop.simps [simp del]

text \<open>
  \<^verbatim>\<open>split_concatenated_jpegs\<close> on the bytes read from \<^verbatim>\<open>blob_path\<close>: it returns
  \<open>idx\<close>, and the files it has written are the effect.
\<close>

definition split_concatenated_jpegs :: "byte list \<Rightarrow> exn + nat \<times> extracted list" where
  "split_concatenated_jpegs data = split_loop data 0 0 []"

text \<open>
  The invariant of the splitter's loop: the ranges written so far are in increasing
  order without overlap, none is empty, and all end at or before the search position.
\<close>

definition ordered :: "nat \<Rightarrow> extracted list \<Rightarrow> bool" where
  "ordered pos out \<longleftrightarrow>
     sorted_wrt (\<lambda>a b. snd a \<le> fst b) out \<and> (\<forall>r \<in> set out. fst r < snd r \<and> snd r \<le> pos)"

subsection \<open>Concrete blobs\<close>

text \<open>
  The blob of the concrete scenario: \<^verbatim>\<open>FFD8\<close>, the segment \<^verbatim>\<open>FFE0 0004 0102\<close>, the
  scan start \<^verbatim>\<open>FFDA 0002\<close>, the payload \<^verbatim>\<open>AA FF00 BB\<close> and \<^verbatim>\<open>FFD9\<close>.
\<close>

definition scenario_blob :: "byte list" where
  "scenario_blob =
     [0xFF, 0xD8, 0xFF, 0xE0, 0x00, 0x04, 0x01, 0x02, 0xFF, 0xDA, 0x00, 0x02,
      0xAA, 0xFF, 0x00, 0xBB, 0xFF, 0xD9]"

text \<open>Two minimal streams \<^verbatim>\<open>FFD8 FFD9\<close> with one byte between them.\<close>

definition two_jpegs :: "byte list" where
  "two_jpegs = [0xFF, 0xD8, 0xFF, 0xD9, 0x00, 0xFF, 0xD8, 0xFF, 0xD9]"

text \<open>
  A stream whose segment \<^verbatim>\<open>FFE0\<close> declares 16 bytes where 2 are left, and one whose
  segment declares the length 1, followed by a minimal stream.
\<close>

definition overrun_blob :: "byte list" where
  "overrun_blob = [0xFF, 0xD8, 0xFF, 0xE0, 0x00, 0x10]"

definition bad_length_blob :: "byte list" where
  "bad_length_blob = [0xFF, 0xD8, 0xFF, 0xE0, 0x00, 0x01, 0xFF, 0xD8, 0xFF, 0xD9]"

text \<open>The shortest stream \<^verbatim>\<open>FFD8 FFD9\<close>, and the same bytes with the first one zeroed.\<close>

definition minimal_jpeg :: "byte list" where
  "minimal_jpeg = [0xFF, 0xD8, 0xFF, 0xD9]"

definition not_a_jpeg :: "byte list" where
  "not_a_jpeg = [0x00, 0xD8, 0xFF, 0xD9]"

subsection \<open>The states a record scan goes through\<close>

lemma scan_trace_stop:
  assumes "\<not> i < length data - 1 \<or> (\<forall>i' s'. loop_body data i in_scan \<noteq> Continue i' s')"
  shows "scan_trace data i in_scan = [(i, in_scan)]"
  using assms by (subst scan_trace.simps) (auto split: step.splits)

lemma scan_trace_step:
  assumes "i < length data - 1" and "loop_body data i in_scan = Continue i' in_scan'"
  shows "scan_trace data i in_scan = (i, in_scan) # scan_trace data i' in_scan'"
  using assms by (subst scan_trace.simps) simp

lemma scan_loop_step:
  assumes "i < length data - 1" and "loop_body data i in_scan = Continue i' in_scan'"
  shows "scan_loop data i in_scan = scan_loop data i' in_scan'"
  using assms by (subst scan_loop.simps) simp

lemma scan_trace_cases:
  obtains (stop) "scan_trace data i in_scan = [(i, in_scan)]"
      "\<not> i < length data - 1 \<or> (\<forall>i' s'. loop_body data i in_scan \<noteq> Continue i' s')"
  | (step) i' in_scan' where "i < length data - 1"
      and "loop_body data i in_scan = Continue i' in_scan'"
      and "scan_trace data i in_scan = (i, in_scan) # scan_trace data i' in_scan'"
proof (cases "i < length data - 1 \<and> (\<exists>i' s'. loop_body data i in_scan = Continue i' s')")
  case True
  then obtain i' s' where "i < length data - 1" "loop_body data i in_scan = Continue i' s'"
    by blast
  then show ?thesis using step scan_trace_step by blast
next
  case False
  then have "\<not> i < length data - 1 \<or> (\<forall>i' s'. loop_body data i in_scan \<noteq> Continue i' s')"
    by blast
  then show ?thesis using stop scan_trace_stop by blast
qed

lemma scan_trace_result:
  "(i', s') \<in> set (scan_trace data i in_scan) \<Longrightarrow>
     scan_loop data i' s' = scan_loop data i in_scan"
proof (induction data i in_scan rule: scan_trace.induct)
  case (1 data i in_scan)
  show ?case
  proof (cases data i in_scan rule: scan_trace_cases)
    case stop
    with "1.prems" show ?thesis by simp
  next
    case (step j t)
    show ?thesis
    proof (cases "(i', s') = (i, in_scan)")
      case True
      then show ?thesis by simp
    next
      case False
      with "1.prems" step have "(i', s') \<in> set (scan_trace data j t)" by auto
      with "1.IH" [OF step(1) step(2)] have "scan_loop data i' s' = scan_loop data j t" .
      with scan_loop_step [OF step(1) step(2)] show ?thesis by simp
    qed
  qed
qed

lemma loop_body_flag_kept:
  assumes "loop_body data i True = Continue i' s'"
  shows "s'"
proof -
  have len: "i < length data"
  proof (rule ccontr)
    assume "\<not> i < length data"
    then have "loop_body data i True = Raise IndexError"
      by (simp add: loop_body_def index_def)
    with assms show False by simp
  qed
  show ?thesis
  proof (cases "data ! i = 0xFF")
    case False
    with assms len show ?thesis by (simp add: loop_body_not_escape)
  next
    case True
    from assms show ?thesis
      unfolding loop_body_escape [OF len True] Let_def
      by (simp split: if_splits)
  qed
qed

lemma scan_trace_flag_kept:
  "(i', s') \<in> set (scan_trace data i True) \<Longrightarrow> s'"
proof (induction data i "True" arbitrary: rule: scan_trace.induct)
  case (1 data i)
  show ?case
  proof (cases data i True rule: scan_trace_cases)
    case stop
    with "1.prems" show ?thesis by simp
  next
    case (step j t)
    from step(2) have t by (rule loop_body_flag_kept)
    with 1 step show ?thesis by auto
  qed
qed

lemma scan_trace_flags_sorted: "sorted (map snd (scan_trace data i in_scan))"
proof (induction data i in_scan rule: scan_trace.induct)
  case (1 data i in_scan)
  show ?case
  proof (cases data i in_scan rule: scan_trace_cases)
    case stop
    then show ?thesis by simp
  next
    case (step j t)
    have "\<forall>x \<in> set (scan_trace data j t). in_scan \<le> snd x"
    proof (cases in_scan)
      case True
      with step(2) have "loop_body data i True = Continue j t" by simp
      then have t by (rule loop_body_flag_kept)
      with scan_trace_flag_kept [of _ _ data j] show ?thesis by auto
    next
      case False
      then show ?thesis by simp
    qed
    with "1.IH" [OF step(1) step(2)] step(3) show ?thesis by simp
  qed
qed

lemma scan_trace_cursor_ge:
  "(i', s') \<in> set (scan_trace data i in_scan) \<Longrightarrow> i \<le> i'"
proof (induction data i in_scan rule: scan_trace.induct)
  case (1 data i in_scan)
  show ?case
  proof (cases data i in_scan rule: scan_trace_cases)
    case stop
    with "1.prems" show ?thesis by simp
  next
    case (step j t)
    from step(2) have "i < j" by (rule loop_body_Continue_gt)
    with 1 step show ?thesis by fastforce
  qed
qed

lemma scan_trace_cursor_increasing:
  "sorted_wrt (<) (map fst (scan_trace data i in_scan))"
proof (induction data i in_scan rule: scan_trace.induct)
  case (1 data i in_scan)
  show ?case
  proof (cases data i in_scan rule: scan_trace_cases)
    case stop
    then show ?thesis by simp
  next
    case (step j t)
    from step(2) have "i < j" by (rule loop_body_Continue_gt)
    with scan_trace_cursor_ge [of _ _ data j t]
    have "\<forall>x \<in> set (scan_trace data j t). i < fst x" by fastforce
    with "1.IH" [OF step(1) step(2)] step(3) show ?thesis by simp
  qed
qed

lemma scan_trace_length:
  "length (scan_trace data i in_scan) \<le> Suc (length data - Suc i)"
proof (induction data i in_scan rule: scan_trace.induct)
  case (1 data i in_scan)
  show ?case
  proof (cases data i in_scan rule: scan_trace_cases)
    case stop
    then show ?thesis by simp
  next
    case (step j t)
    from step(2) have "i < j" by (rule loop_body_Continue_gt)
    with "1.IH" [OF step(1) step(2)] step(1) step(3) show ?thesis by simp
  qed
qed

subsection \<open>Facts about the splitter\<close>

lemma parse_one_jpeg_at_SOI:
  assumes "find_next_soi data pos = Some soi"
  shows "parse_one_jpeg data (int soi) = scan_loop data (soi + 2) False"
  using find_next_soi_Some [OF assms] by (simp add: parse_one_jpeg_def)

lemma parse_one_jpeg_Inl:
  assumes "parse_one_jpeg data start = Inl x"
  shows "\<exists>m. x = ValueError m"
proof (cases "parse_one_jpeg data start = scan_loop data (nat start + 2) False")
  case True
  with assms scan_loop_Inl [of data "nat start + 2" False x] show ?thesis by auto
next
  case False
  then have "parse_one_jpeg data start = Inl (ValueError Start_is_not_at_SOI)"
    by (simp add: parse_one_jpeg_def Let_def split: if_splits)
  with assms show ?thesis by auto
qed

lemma split_loop_stop:
  assumes "find_next_soi data pos = None"
  shows "split_loop data pos idx out = Inr (idx, out)"
  using assms by (subst split_loop.simps) simp

lemma split_loop_reject:
  assumes "find_next_soi data pos = Some soi" and "parse_one_jpeg data (int soi) = Inl x"
  shows "split_loop data pos idx out = split_loop data (soi + 2) idx out"
proof -
  from parse_one_jpeg_Inl [OF assms(2)] obtain m where "x = ValueError m" ..
  with assms show ?thesis by (subst split_loop.simps) simp
qed

lemma split_loop_accept:
  assumes "find_next_soi data pos = Some soi" and "parse_one_jpeg data (int soi) = Inr e"
  shows "split_loop data pos idx out = split_loop data e (idx + 1) (out @ [(soi, e)])"
  using assms by (subst split_loop.simps) simp

lemma split_loop_cases:
  obtains (stop) "find_next_soi data pos = None"
  | (reject) soi m where "find_next_soi data pos = Some soi"
      and "parse_one_jpeg data (int soi) = Inl (ValueError m)"
  | (accept) soi e where "find_next_soi data pos = Some soi"
      and "parse_one_jpeg data (int soi) = Inr e"
proof (cases "find_next_soi data pos")
  case None
  then show ?thesis by (rule stop)
next
  case (Some soi)
  show ?thesis
  proof (cases "parse_one_jpeg data (int soi)")
    case (Inl x)
    from parse_one_jpeg_Inl [OF this] obtain m where "x = ValueError m" ..
    with Some Inl show ?thesis using reject by simp
  next
    case (Inr e)
    with Some show ?thesis by (rule accept)
  qed
qed

lemma split_loop_returns: "\<exists>r. split_loop data pos idx out = Inr r"
proof (induction data pos idx out rule: split_loop.induct)
  case (1 data pos idx out)
  show ?case
  proof (cases data pos rule: split_loop_cases)
    case stop
    then show ?thesis by (simp add: split_loop_stop)
  next
    case (reject soi m)
    from "1.IH"(1) [OF reject(1) reject(2) refl]
    show ?thesis by (simp add: split_loop_reject [OF reject])
  next
    case (accept soi e)
    from "1.IH"(2) [OF accept(1) accept(2)]
    show ?thesis by (simp add: split_loop_accept [OF accept])
  qed
qed

lemma split_loop_ordered:
  "split_loop data pos idx out = Inr (idx', out') \<Longrightarrow> ordered pos out \<Longrightarrow>
     (\<exists>pos'. ordered pos' out')"
proof (induction data pos idx out rule: split_loop.induct)
  case (1 data pos idx out)
  show ?case
  proof (cases data pos rule: split_loop_cases)
    case stop
    with "1.prems" show ?thesis by (auto simp: split_loop_stop)
  next
    case (reject soi m)
    from find_next_soi_Some [OF reject(1)] have "pos \<le> soi + 2" by simp
    with "1.prems"(2) have "ordered (soi + 2) out" by (fastforce simp: ordered_def)
    moreover from "1.prems"(1) have "split_loop data (soi + 2) idx out = Inr (idx', out')"
      by (simp add: split_loop_reject [OF reject])
    ultimately show ?thesis using "1.IH"(1) [OF reject(1) reject(2) refl] by blast
  next
    case (accept soi e)
    from find_next_soi_Some [OF accept(1)] parse_one_jpeg_Inr [OF accept(2)]
    have "pos \<le> soi" and "soi < e" by simp_all
    with "1.prems"(2) have "ordered e (out @ [(soi, e)])"
      by (fastforce simp: ordered_def sorted_wrt_append)
    moreover from "1.prems"(1)
    have "split_loop data e (idx + 1) (out @ [(soi, e)]) = Inr (idx', out')"
      by (simp add: split_loop_accept [OF accept])
    ultimately show ?thesis using "1.IH"(2) [OF accept(1) accept(2)] by blast
  qed
qed

subsection \<open>Segments with a length field\<close>

lemma marker_after_fill:
  assumes "i < j" and "j < length data"
    and "\<forall>k. i \<le> k \<and> k < j \<longrightarrow> data ! k = 0xFF"
    and "data ! j \<noteq> 0xFF"
  shows "i < length data - 1 \<and> data ! i = 0xFF \<and> skip_fill data i = j"
proof -
  from assms(1,2) have "i < length data - 1" by simp
  moreover from assms(1,3) have "data ! i = 0xFF" by simp
  moreover have "skip_fill data i = j"
  proof (rule skip_fill_eq)
    show "i \<le> j" using assms(1) by simp
    show "\<forall>k. i \<le> k \<and> k < j \<longrightarrow> k < length data \<and> data ! k = 0xFF"
      using assms(2,3) by auto
    show "j < length data \<longrightarrow> data ! j \<noteq> 0xFF" using assms(4) by simp
  qed
  ultimately show ?thesis by simp
qed

lemma u16be_Inr:
  assumes "u16be (slice data a (a + 2)) = Inr L"
  shows "a + 2 \<le> length data \<and> L = unat (data ! a) * 256 + unat (data ! (a + 1))"
proof (cases "a + 2 \<le> length data")
  case True
  with assms u16be_slice [OF True] show ?thesis by simp
next
  case False
  then have "length (slice data a (a + 2)) < 2" by (simp add: slice_def)
  then have "u16be (slice data a (a + 2)) = Inl StructError"
    by (cases "slice data a (a + 2)" rule: list.exhaust; simp add: u16be_def split: list.splits)
  with assms show ?thesis by simp
qed

text \<open>The body at a marker that opens a segment with a length field.\<close>

lemma loop_body_segment:
  assumes "i < j" and "j < length data"
    and "\<forall>k. i \<le> k \<and> k < j \<longrightarrow> data ! k = 0xFF"
    and "data ! j \<noteq> 0xFF" and "\<not> (in_scan \<and> data ! j = 0x00)" and "data ! j \<notin> NO_LEN"
    and "u16be (slice data (j + 1) (j + 3)) = Inr L"
  shows "loop_body data i in_scan =
     (if L < 2
      then Raise (ValueError (if data ! j = SOS then Bad_SOS_seglen else Bad_segment_seglen))
      else Continue (j + 1 + L) (in_scan \<or> data ! j = SOS))"
proof -
  from marker_after_fill [OF assms(1-4)]
  have run: "i < length data - 1" and esc: "data ! i = 0xFF" and j: "skip_fill data i = j"
    by simp_all
  from run have len: "i < length data" by simp
  from assms(7) have "u16be (slice data (j + 1) (j + 1 + 2)) = Inr L"
    by (simp add: numeral_3_eq_3)
  from u16be_Inr [OF this]
  have rd: "j + 3 \<le> length data" and L: "L = unat (data ! (j + 1)) * 256 + unat (data ! (j + 2))"
    by (simp_all add: add.assoc)
  from assms(6) have "data ! j \<noteq> 0xD9" by (auto simp: NO_LEN_iff)
  with assms(2,5,6) rd L show ?thesis
    unfolding loop_body_escape [OF len esc] j Let_def by auto
qed

lemma scan_loop_past_end:
  assumes "\<not> i < length data - 1"
  shows "scan_loop data i in_scan = Inl (ValueError EOI_not_found)"
  using assms by (subst scan_loop.simps) simp

lemma parse_one_jpeg_started:
  assumes "parse_one_jpeg data start \<noteq> Inl (ValueError Start_is_not_at_SOI)"
  shows "parse_one_jpeg data start = scan_loop data (nat start + 2) False"
  using assms by (simp add: parse_one_jpeg_def Let_def split: if_splits)

subsection \<open>Steps of the scan and the precondition\<close>

lemma scan_trace_first: "scan_trace data i in_scan ! 0 = (i, in_scan)"
  by (subst scan_trace.simps) simp

lemma scan_trace_consecutive:
  "k + 1 < length (scan_trace data i in_scan) \<Longrightarrow>
     fst (scan_trace data i in_scan ! k) < length data - 1 \<and>
     loop_body data (fst (scan_trace data i in_scan ! k)) (snd (scan_trace data i in_scan ! k)) =
       Continue (fst (scan_trace data i in_scan ! (k + 1)))
                (snd (scan_trace data i in_scan ! (k + 1)))"
proof (induction data i in_scan arbitrary: k rule: scan_trace.induct)
  case (1 data i in_scan)
  show ?case
  proof (cases data i in_scan rule: scan_trace_cases)
    case stop
    with "1.prems" show ?thesis by simp
  next
    case (step j t)
    show ?thesis
    proof (cases k)
      case 0
      with step scan_trace_first [of data j t] show ?thesis by simp
    next
      case (Suc k')
      with "1.prems" step(3) have "k' + 1 < length (scan_trace data j t)" by simp
      from "1.IH" [OF step(1) step(2) this] Suc step(3) show ?thesis by simp
    qed
  qed
qed

lemma loop_body_flag_set:
  assumes "loop_body data i False = Continue i' True"
  shows "data ! i = 0xFF \<and> skip_fill data i < length data \<and> data ! skip_fill data i = SOS"
proof -
  have len: "i < length data"
  proof (rule ccontr)
    assume "\<not> i < length data"
    then have "loop_body data i False = Raise IndexError"
      by (simp add: loop_body_def index_def)
    with assms show False by simp
  qed
  have esc: "data ! i = 0xFF"
  proof (rule ccontr)
    assume "data ! i \<noteq> 0xFF"
    with len assms show False by (simp add: loop_body_not_escape)
  qed
  from assms have "skip_fill data i < length data \<and> data ! skip_fill data i = SOS"
    unfolding loop_body_escape [OF len esc] Let_def
    by (simp split: if_splits)
  with esc show ?thesis by simp
qed

lemma scenario_trace:
  "scan_trace scenario_blob 2 False =
     [(2, False), (8, False), (12, True), (13, True), (15, True), (16, True)]"
  by code_simp

lemma slice_two:
  assumes "a + 2 \<le> length data"
  shows "slice data a (a + 2) = [data ! a, data ! (a + 1)]"
proof -
  from assms have "drop a data = data ! a # data ! (a + 1) # drop (a + 2) data"
    by (simp add: Cons_nth_drop_Suc)
  then show ?thesis by (simp add: slice_def)
qed

lemma parse_one_jpeg_not_at_SOI:
  "parse_one_jpeg data start = Inl (ValueError Start_is_not_at_SOI) \<longleftrightarrow>
     start < 0 \<or> int (length data) < start + 2 \<or> slice data (nat start) (nat start + 2) \<noteq> SOI"
proof
  assume failed: "parse_one_jpeg data start = Inl (ValueError Start_is_not_at_SOI)"
  show "start < 0 \<or> int (length data) < start + 2 \<or> slice data (nat start) (nat start + 2) \<noteq> SOI"
  proof (rule ccontr)
    assume "\<not> ?thesis"
    then have "parse_one_jpeg data start = scan_loop data (nat start + 2) False"
      by (simp add: parse_one_jpeg_def)
    with failed scan_loop_Inl [of data "nat start + 2" False "ValueError Start_is_not_at_SOI"]
    show False by simp
  qed
next
  assume "start < 0 \<or> int (length data) < start + 2 \<or> slice data (nat start) (nat start + 2) \<noteq> SOI"
  then show "parse_one_jpeg data start = Inl (ValueError Start_is_not_at_SOI)"
    by (simp add: parse_one_jpeg_def)
qed

section \<open>The claims\<close>

text \<open>
  C1. On the 18-byte blob \<^verbatim>\<open>FF D8 FF E0 00 04 01 02 FF DA 00 02 AA FF 00 BB FF D9\<close> the
  record scan started at offset 0 returns 18, the length of the blob, and the splitter
  writes exactly one record, the range from 0 to 18.
\<close>

theorem C1_scenario_one_record:
  "length scenario_blob = 18 \<and>
   parse_one_jpeg scenario_blob 0 = Inr 18 \<and>
   split_concatenated_jpegs scenario_blob = Inr (1, [(0, 18)])"
  by code_simp

text \<open>
  C2. While \<open>in_scan\<close> is true, an escape byte \<open>0xFF\<close> at the cursor \<open>i\<close>, alone or
  followed by more \<open>0xFF\<close> fill bytes up to \<open>j\<close>, whose category byte \<open>data ! j\<close> is
  \<open>0x00\<close>, is not a marker and does not end the scan: the body leaves the cursor at
  \<open>j + 1\<close>, just past the zero byte, and the flag true, and the scan goes on from there.
\<close>

theorem C2_stuffed_escape_is_skipped:
  assumes "i < j" and "j < length data"
    and "\<forall>k. i \<le> k \<and> k < j \<longrightarrow> data ! k = 0xFF"
    and "data ! j = 0x00"
  shows "loop_body data i True = Continue (j + 1) True \<and>
         scan_loop data i True = scan_loop data (j + 1) True \<and>
         scan_trace data i True = (i, True) # scan_trace data (j + 1) True"
proof -
  from assms(4) have "data ! j \<noteq> 0xFF" by simp
  from marker_after_fill [OF assms(1-3) this]
  have run: "i < length data - 1" and esc: "data ! i = 0xFF" and j: "skip_fill data i = j"
    by simp_all
  from run have len: "i < length data" by simp
  from assms(2,4) have body: "loop_body data i True = Continue (j + 1) True"
    unfolding loop_body_escape [OF len esc] j Let_def by simp
  with scan_loop_step [OF run body] scan_trace_step [OF run body] show ?thesis by simp
qed

theorem C2_witness:
  "loop_body scenario_blob 13 True = Continue 15 True \<and>
   scan_loop scenario_blob 13 True = scan_loop scenario_blob 15 True \<and>
   scan_trace scenario_blob 13 True = (13, True) # scan_trace scenario_blob 15 True"
proof -
  have a: "(13 :: nat) < 14" by simp
  have b: "14 < length scenario_blob" by (simp add: scenario_blob_def)
  have c: "\<forall>k. (13 :: nat) \<le> k \<and> k < 14 \<longrightarrow> scenario_blob ! k = 0xFF"
  proof (intro allI impI)
    fix k :: nat assume "13 \<le> k \<and> k < 14"
    then have "k = 13" by simp
    then show "scenario_blob ! k = 0xFF" by (simp add: scenario_blob_def)
  qed
  have d: "scenario_blob ! 14 = 0x00" by (simp add: scenario_blob_def)
  from C2_stuffed_escape_is_skipped [OF a b c d] show ?thesis by simp
qed

text \<open>
  C3. In the sequence of records written by one pass of the splitter, each record ends
  at or before the start of the next one: consecutive records never overlap and come in
  increasing offset order.
\<close>

theorem C3_records_do_not_overlap:
  assumes "split_concatenated_jpegs data = Inr (idx, out)" and "k + 1 < length out"
  shows "snd (out ! k) \<le> fst (out ! (k + 1))"
proof -
  have "ordered 0 []" by (simp add: ordered_def)
  with assms(1) obtain pos' where "ordered pos' out"
    unfolding split_concatenated_jpegs_def by (blast dest: split_loop_ordered)
  then have "sorted_wrt (\<lambda>a b. snd a \<le> fst b) out" by (simp add: ordered_def)
  from sorted_wrt_nth_less [OF this, of k "k + 1"] assms(2) show ?thesis by simp
qed

theorem C3_witness:
  "split_concatenated_jpegs two_jpegs = Inr (2, [(0, 4), (5, 9)]) \<and>
   0 + 1 < length [(0 :: nat, 4 :: nat), (5, 9)] \<and>
   snd ([(0 :: nat, 4 :: nat), (5, 9)] ! 0) \<le> fst ([(0 :: nat, 4 :: nat), (5, 9)] ! (0 + 1))"
proof -
  have run: "split_concatenated_jpegs two_jpegs = Inr (2, [(0, 4), (5, 9)])"
    by code_simp
  have len: "0 + 1 < length [(0 :: nat, 4 :: nat), (5, 9)]" by simp
  from C3_records_do_not_overlap [OF run len] run len show ?thesis by blast
qed

text \<open>
  C4. The splitter never raises. When the record scan fails on the start signature
  found at \<open>soi\<close>, the failure is a \<open>TruncatedSegment\<close>, an \<open>InvalidSegmentLength\<close> or
  an \<open>UnterminatedRecord\<close>, it is caught, and the loop goes on from the search position
  \<open>soi + 2\<close> with the counter and the written records unchanged.
\<close>

theorem C4_scan_failures_are_skipped:
  "(\<exists>r. split_concatenated_jpegs data = Inr r) \<and>
   (\<forall>soi x. find_next_soi data pos = Some soi \<and> parse_one_jpeg data (int soi) = Inl x \<longrightarrow>
      x \<in> TruncatedSegment \<union> InvalidSegmentLength \<union> UnterminatedRecord \<and>
      split_loop data pos idx out = split_loop data (soi + 2) idx out)"
proof (intro conjI allI impI)
  show "\<exists>r. split_concatenated_jpegs data = Inr r"
    unfolding split_concatenated_jpegs_def by (rule split_loop_returns)
next
  fix soi x
  assume a: "find_next_soi data pos = Some soi \<and> parse_one_jpeg data (int soi) = Inl x"
  then have found: "find_next_soi data pos = Some soi" by simp
  from a parse_one_jpeg_at_SOI [OF found] have "scan_loop data (soi + 2) False = Inl x"
    by simp
  from scan_loop_Inl [OF this]
  show "x \<in> TruncatedSegment \<union> InvalidSegmentLength \<union> UnterminatedRecord"
    by (auto simp: TruncatedSegment_def InvalidSegmentLength_def UnterminatedRecord_def)
  from a show "split_loop data pos idx out = split_loop data (soi + 2) idx out"
    by (simp add: split_loop_reject)
qed

theorem C4_witness:
  "find_next_soi bad_length_blob 0 = Some 0 \<and>
   parse_one_jpeg bad_length_blob (int 0) = Inl (ValueError Bad_segment_seglen) \<and>
   ValueError Bad_segment_seglen \<in> TruncatedSegment \<union> InvalidSegmentLength \<union> UnterminatedRecord \<and>
   split_loop bad_length_blob 0 0 [] = split_loop bad_length_blob (0 + 2) 0 [] \<and>
   split_concatenated_jpegs bad_length_blob = Inr (1, [(6, 10)])"
proof -
  have found: "find_next_soi bad_length_blob 0 = Some 0" by code_simp
  have failed: "parse_one_jpeg bad_length_blob (int 0) = Inl (ValueError Bad_segment_seglen)"
    by code_simp
  have run: "split_concatenated_jpegs bad_length_blob = Inr (1, [(6, 10)])" by code_simp
  from C4_scan_failures_are_skipped [of bad_length_blob 0 0 "[]"] found failed
  have "ValueError Bad_segment_seglen \<in> TruncatedSegment \<union> InvalidSegmentLength \<union> UnterminatedRecord \<and>
      split_loop bad_length_blob 0 0 [] = split_loop bad_length_blob (0 + 2) 0 []"
    by blast
  with found failed run show ?thesis by simp
qed

text \<open>
  C5, as amended. In a record scan that comes to the cursor \<open>i\<close> before a marker
  \<open>data ! j\<close> opening a length-prefixed or scan-start segment whose two length bytes are
  readable and whose declared length \<open>L\<close> leads past the end of the blob, the scan fails
  with \<open>UnterminatedRecord\<close> (the message \<^verbatim>\<open>EOI not found\<close>), not with
  \<open>TruncatedSegment\<close>: the length is added to the cursor unchecked and the loop ends.
\<close>

theorem C5_overrun_is_unterminated:
  assumes "parse_one_jpeg data start \<noteq> Inl (ValueError Start_is_not_at_SOI)"
    and "(i, in_scan) \<in> set (scan_trace data (nat start + 2) False)"
    and "i < j" and "j < length data"
    and "\<forall>k. i \<le> k \<and> k < j \<longrightarrow> data ! k = 0xFF"
    and "data ! j \<noteq> 0xFF" and "\<not> (in_scan \<and> data ! j = 0x00)" and "data ! j \<notin> NO_LEN"
    and "u16be (slice data (j + 1) (j + 3)) = Inr L"
    and "j + 1 + L > length data"
  shows "parse_one_jpeg data start = Inl (ValueError EOI_not_found) \<and>
         ValueError EOI_not_found \<in> UnterminatedRecord \<and>
         ValueError EOI_not_found \<notin> TruncatedSegment"
proof -
  from marker_after_fill [OF assms(3-6)] have run: "i < length data - 1" by simp
  from assms(9) have "u16be (slice data (j + 1) (j + 1 + 2)) = Inr L"
    by (simp add: numeral_3_eq_3)
  from u16be_Inr [OF this] have "j + 3 \<le> length data" by simp
  with assms(10) have "2 \<le> L" by simp
  with loop_body_segment [OF assms(3-9)]
  have "loop_body data i in_scan = Continue (j + 1 + L) (in_scan \<or> data ! j = SOS)" by simp
  from scan_loop_step [OF run this] assms(10)
  have "scan_loop data i in_scan = Inl (ValueError EOI_not_found)"
    by (simp add: scan_loop_past_end)
  with scan_trace_result [OF assms(2)] parse_one_jpeg_started [OF assms(1)]
  have "parse_one_jpeg data start = Inl (ValueError EOI_not_found)" by simp
  then show ?thesis by (simp add: UnterminatedRecord_def TruncatedSegment_def)
qed

theorem C5_witness:
  "parse_one_jpeg overrun_blob 0 = Inl (ValueError EOI_not_found) \<and>
   ValueError EOI_not_found \<in> UnterminatedRecord \<and>
   ValueError EOI_not_found \<notin> TruncatedSegment"
proof -
  have started: "parse_one_jpeg overrun_blob 0 \<noteq> Inl (ValueError Start_is_not_at_SOI)"
    by code_simp
  have reached: "(2, False) \<in> set (scan_trace overrun_blob (nat 0 + 2) False)"
    by code_simp
  have fill: "\<forall>k. (2 :: nat) \<le> k \<and> k < 3 \<longrightarrow> overrun_blob ! k = 0xFF"
  proof (intro allI impI)
    fix k :: nat assume "2 \<le> k \<and> k < 3"
    then have "k = 2" by simp
    then show "overrun_blob ! k = 0xFF" by (simp add: overrun_blob_def)
  qed
  have len: "u16be (slice overrun_blob (3 + 1) (3 + 3)) = Inr 16"
    by (simp add: overrun_blob_def slice_def u16be_def)
  show ?thesis
    using C5_overrun_is_unterminated [of overrun_blob 0 2 False 3 16, OF started reached _ _ fill _ _ _ len]
    by (simp add: overrun_blob_def NO_LEN_iff)
qed

text \<open>
  C5 as stated fails on \<^verbatim>\<open>FF D8 FF E0 00 10\<close>: the length bytes at offset 4 are readable
  and declare 16 bytes, more than the blob has, and the scan fails with
  \<^verbatim>\<open>EOI not found\<close>, which is no \<open>TruncatedSegment\<close>.
\<close>

theorem C5_counterexample:
  "overrun_blob ! 2 = 0xFF \<and> overrun_blob ! 3 = 0xE0 \<and>
   u16be (slice overrun_blob 4 6) = Inr 16 \<and> 4 + 16 > length overrun_blob \<and>
   parse_one_jpeg overrun_blob 0 = Inl (ValueError EOI_not_found) \<and>
   parse_one_jpeg overrun_blob 0 \<notin> Inl ` TruncatedSegment"
  by code_simp

text \<open>
  C6. At a marker \<open>data ! j\<close> that opens a length-prefixed or scan-start segment (it is
  neither a stuffed zero nor in \<open>NO_LEN\<close>) whose two length bytes at \<open>j + 1\<close> are
  readable and declare \<open>L\<close>: if \<open>L \<ge> 2\<close> the cursor after the segment is the position
  of the length field plus \<open>L\<close>, and if \<open>L < 2\<close> the scan fails with
  \<open>InvalidSegmentLength\<close>.
\<close>

theorem C6_declared_length_is_skipped:
  assumes "i < j" and "j < length data"
    and "\<forall>k. i \<le> k \<and> k < j \<longrightarrow> data ! k = 0xFF"
    and "data ! j \<noteq> 0xFF" and "\<not> (in_scan \<and> data ! j = 0x00)" and "data ! j \<notin> NO_LEN"
    and "u16be (slice data (j + 1) (j + 3)) = Inr L"
  shows "if 2 \<le> L
         then loop_body data i in_scan = Continue (j + 1 + L) (in_scan \<or> data ! j = SOS) \<and>
              scan_loop data i in_scan = scan_loop data (j + 1 + L) (in_scan \<or> data ! j = SOS)
         else (\<exists>x \<in> InvalidSegmentLength.
                 loop_body data i in_scan = Raise x \<and> scan_loop data i in_scan = Inl x)"
proof -
  from marker_after_fill [OF assms(1-4)] have run: "i < length data - 1" by simp
  note body = loop_body_segment [OF assms]
  show ?thesis
  proof (cases "2 \<le> L")
    case True
    with body have "loop_body data i in_scan = Continue (j + 1 + L) (in_scan \<or> data ! j = SOS)"
      by simp
    with scan_loop_step [OF run this] True show ?thesis by simp
  next
    case False
    define x where "x = ValueError (if data ! j = SOS then Bad_SOS_seglen else Bad_segment_seglen)"
    from False body have r: "loop_body data i in_scan = Raise x" by (simp add: x_def)
    with run have "scan_loop data i in_scan = Inl x" by (subst scan_loop.simps) simp
    moreover have "x \<in> InvalidSegmentLength" by (simp add: x_def InvalidSegmentLength_def)
    ultimately show ?thesis using False r by auto
  qed
qed


theorem C6_witness:
  "loop_body scenario_blob 2 False = Continue 8 False \<and>
   loop_body scenario_blob 8 False = Continue 12 True \<and>
   scan_loop bad_length_blob 2 False \<in> Inl ` InvalidSegmentLength"
proof -
  have fill: "\<forall>k. (2 :: nat) \<le> k \<and> k < 3 \<longrightarrow> scenario_blob ! k = 0xFF"
  proof (intro allI impI)
    fix k :: nat assume "2 \<le> k \<and> k < 3"
    then have "k = 2" by simp
    then show "scenario_blob ! k = 0xFF" by (simp add: scenario_blob_def)
  qed
  have len: "u16be (slice scenario_blob (3 + 1) (3 + 3)) = Inr 4"
    by (simp add: scenario_blob_def slice_def u16be_def)
  have "loop_body scenario_blob 2 False = Continue 8 False"
    using C6_declared_length_is_skipped [of 2 3 scenario_blob False 4, OF _ _ fill _ _ _ len]
    by (simp add: scenario_blob_def NO_LEN_iff SOS_def)
  moreover
  have fill': "\<forall>k. (8 :: nat) \<le> k \<and> k < 9 \<longrightarrow> scenario_blob ! k = 0xFF"
  proof (intro allI impI)
    fix k :: nat assume "8 \<le> k \<and> k < 9"
    then have "k = 8" by simp
    then show "scenario_blob ! k = 0xFF" by (simp add: scenario_blob_def)
  qed
  have len': "u16be (slice scenario_blob (9 + 1) (9 + 3)) = Inr 2"
    by (simp add: scenario_blob_def slice_def u16be_def)
  have "loop_body scenario_blob 8 False = Continue 12 True"
    using C6_declared_length_is_skipped [of 8 9 scenario_blob False 2, OF _ _ fill' _ _ _ len']
    by (simp add: scenario_blob_def NO_LEN_iff SOS_def)
  moreover
  have fill'': "\<forall>k. (2 :: nat) \<le> k \<and> k < 3 \<longrightarrow> bad_length_blob ! k = 0xFF"
  proof (intro allI impI)
    fix k :: nat assume "2 \<le> k \<and> k < 3"
    then have "k = 2" by simp
    then show "bad_length_blob ! k = 0xFF" by (simp add: bad_length_blob_def)
  qed
  have len'': "u16be (slice bad_length_blob (3 + 1) (3 + 3)) = Inr 1"
    by (simp add: bad_length_blob_def slice_def u16be_def)
  have "scan_loop bad_length_blob 2 False \<in> Inl ` InvalidSegmentLength"
    using C6_declared_length_is_skipped [of 2 3 bad_length_blob False 1, OF _ _ fill'' _ _ _ len'']
    by (auto simp: bad_length_blob_def NO_LEN_iff)
  ultimately show ?thesis by simp
qed

text \<open>
  C7. A record scan enters its loop with the cursor at \<open>start + 2\<close> and \<open>in_scan\<close> false.
  Along the states of a scan, from any state: once \<open>in_scan\<close> is true it is true in every
  later state, and a pass through the body that turns it from false to true is one that
  consumed the scan-start marker \<open>SOS\<close> behind the escape byte at the cursor.
\<close>

theorem C7_scan_state_is_sticky:
  "(parse_one_jpeg data start \<noteq> Inl (ValueError Start_is_not_at_SOI) \<longrightarrow>
      parse_one_jpeg data start = scan_loop data (nat start + 2) False \<and>
      scan_trace data (nat start + 2) False ! 0 = (nat start + 2, False)) \<and>
   (\<forall>k l. k \<le> l \<and> l < length (scan_trace data i in_scan) \<and>
      snd (scan_trace data i in_scan ! k) \<longrightarrow> snd (scan_trace data i in_scan ! l)) \<and>
   (\<forall>k. k + 1 < length (scan_trace data i in_scan) \<and>
      \<not> snd (scan_trace data i in_scan ! k) \<and> snd (scan_trace data i in_scan ! (k + 1)) \<longrightarrow>
      data ! fst (scan_trace data i in_scan ! k) = 0xFF \<and>
      data ! skip_fill data (fst (scan_trace data i in_scan ! k)) = SOS)"
proof (intro conjI allI impI)
  assume "parse_one_jpeg data start \<noteq> Inl (ValueError Start_is_not_at_SOI)"
  then show "parse_one_jpeg data start = scan_loop data (nat start + 2) False"
    by (rule parse_one_jpeg_started)
next
  show "scan_trace data (nat start + 2) False ! 0 = (nat start + 2, False)"
    by (rule scan_trace_first)
next
  fix k l
  assume a: "k \<le> l \<and> l < length (scan_trace data i in_scan) \<and>
    snd (scan_trace data i in_scan ! k)"
  have "sorted (map snd (scan_trace data i in_scan))" by (rule scan_trace_flags_sorted)
  from sorted_nth_mono [OF this, of k l] a
  have "snd (scan_trace data i in_scan ! k) \<le> snd (scan_trace data i in_scan ! l)" by simp
  with a show "snd (scan_trace data i in_scan ! l)" by simp
next
  fix k
  assume a: "k + 1 < length (scan_trace data i in_scan) \<and>
    \<not> snd (scan_trace data i in_scan ! k) \<and> snd (scan_trace data i in_scan ! (k + 1))"
  then have "k + 1 < length (scan_trace data i in_scan)" by simp
  from scan_trace_consecutive [OF this] a
  have "loop_body data (fst (scan_trace data i in_scan ! k)) False =
      Continue (fst (scan_trace data i in_scan ! (k + 1))) True"
    by simp
  from loop_body_flag_set [OF this]
  show "data ! fst (scan_trace data i in_scan ! k) = 0xFF"
    and "data ! skip_fill data (fst (scan_trace data i in_scan ! k)) = SOS"
    by simp_all
qed

theorem C7_witness:
  "parse_one_jpeg scenario_blob 0 = scan_loop scenario_blob 2 False \<and>
   scan_trace scenario_blob 2 False =
     [(2, False), (8, False), (12, True), (13, True), (15, True), (16, True)] \<and>
   scenario_blob ! 8 = 0xFF \<and> scenario_blob ! skip_fill scenario_blob 8 = SOS \<and>
   snd (scan_trace scenario_blob 2 False ! 2) \<and> snd (scan_trace scenario_blob 2 False ! 5)"
proof -
  have started: "parse_one_jpeg scenario_blob 0 \<noteq> Inl (ValueError Start_is_not_at_SOI)"
    by code_simp
  note c7 = C7_scan_state_is_sticky [of scenario_blob 0 2 False]
  have set: "snd (scan_trace scenario_blob 2 False ! 2)" by (simp add: scenario_trace)
  from c7 have "(2 :: nat) \<le> 5 \<and> 5 < length (scan_trace scenario_blob 2 False) \<and>
      snd (scan_trace scenario_blob 2 False ! 2) \<longrightarrow> snd (scan_trace scenario_blob 2 False ! 5)"
    by blast
  with set have kept: "snd (scan_trace scenario_blob 2 False ! 5)"
    by (simp add: scenario_trace)
  from c7 started have "parse_one_jpeg scenario_blob 0 = scan_loop scenario_blob 2 False"
    by (simp add: numeral_2_eq_2)
  moreover from c7 have "1 + 1 < length (scan_trace scenario_blob 2 False) \<and>
      \<not> snd (scan_trace scenario_blob 2 False ! 1) \<and> snd (scan_trace scenario_blob 2 False ! (1 + 1)) \<longrightarrow>
      scenario_blob ! fst (scan_trace scenario_blob 2 False ! 1) = 0xFF \<and>
      scenario_blob ! skip_fill scenario_blob (fst (scan_trace scenario_blob 2 False ! 1)) = SOS"
    by blast
  then have "scenario_blob ! 8 = 0xFF \<and> scenario_blob ! skip_fill scenario_blob 8 = SOS"
    by (simp add: scenario_trace)
  ultimately show ?thesis using set kept by (simp add: scenario_trace)
qed

text \<open>
  C8. A record scan started at \<open>start\<close> that succeeds returns an exclusive end offset
  \<open>e\<close> with \<open>start < e \<le> length data\<close>, and \<open>e\<close> is just behind the category byte
  \<open>0xD9\<close> of the end marker.
\<close>

theorem C8_end_offset:
  assumes "parse_one_jpeg data start = Inr e"
  shows "0 \<le> start \<and> start < int e \<and> e \<le> length data \<and>
         data ! (e - 2) = 0xFF \<and> data ! (e - 1) = 0xD9"
  using parse_one_jpeg_Inr [OF assms] by simp

theorem C8_witness:
  "parse_one_jpeg scenario_blob 0 = Inr 18 \<and> (0 :: int) < int 18 \<and>
   18 \<le> length scenario_blob \<and>
   scenario_blob ! (18 - 2) = 0xFF \<and> scenario_blob ! (18 - 1) = 0xD9"
proof -
  have run: "parse_one_jpeg scenario_blob 0 = Inr 18" by code_simp
  from C8_end_offset [OF run] run show ?thesis by simp
qed

text \<open>
  C9. The record scan and the splitting pass terminate. Along the states of a scan the
  cursor strictly increases, each pass through the loop body that continues moves it
  by at least one byte, and the loop test is evaluated at most \<open>n - 1 - i\<close> times plus
  once. In the splitter the search position strictly increases after a rejected
  candidate (to \<open>soi + 2\<close>) and after an accepted one (to its end), and the pass returns.
\<close>

theorem C9_scan_and_pass_terminate:
  "sorted_wrt (<) (map fst (scan_trace data i in_scan)) \<and>
   length (scan_trace data i in_scan) \<le> Suc (length data - Suc i) \<and>
   (\<forall>i' in_scan'. loop_body data i in_scan = Continue i' in_scan' \<longrightarrow> i + 1 \<le> i') \<and>
   (\<forall>soi. find_next_soi data pos = Some soi \<longrightarrow>
      (\<forall>x. parse_one_jpeg data (int soi) = Inl x \<longrightarrow>
         pos < soi + 2 \<and> split_loop data pos idx out = split_loop data (soi + 2) idx out) \<and>
      (\<forall>e. parse_one_jpeg data (int soi) = Inr e \<longrightarrow>
         pos < e \<and>
         split_loop data pos idx out = split_loop data e (idx + 1) (out @ [(soi, e)]))) \<and>
   (\<exists>r. split_loop data pos idx out = Inr r)"
proof (intro conjI allI impI)
  show "sorted_wrt (<) (map fst (scan_trace data i in_scan))"
    by (rule scan_trace_cursor_increasing)
  show "length (scan_trace data i in_scan) \<le> Suc (length data - Suc i)"
    by (rule scan_trace_length)
  show "\<exists>r. split_loop data pos idx out = Inr r" by (rule split_loop_returns)
next
  fix i' in_scan'
  assume "loop_body data i in_scan = Continue i' in_scan'"
  from loop_body_Continue_gt [OF this] show "i + 1 \<le> i'" by simp
next
  fix soi x
  assume found: "find_next_soi data pos = Some soi"
    and failed: "parse_one_jpeg data (int soi) = Inl x"
  from find_next_soi_Some [OF found] show "pos < soi + 2" by simp
  from found failed show "split_loop data pos idx out = split_loop data (soi + 2) idx out"
    by (rule split_loop_reject)
next
  fix soi e
  assume found: "find_next_soi data pos = Some soi"
    and parsed: "parse_one_jpeg data (int soi) = Inr e"
  from find_next_soi_Some [OF found] parse_one_jpeg_Inr [OF parsed] show "pos < e" by simp
  from found parsed
  show "split_loop data pos idx out = split_loop data e (idx + 1) (out @ [(soi, e)])"
    by (rule split_loop_accept)
qed

theorem C9_witness:
  "loop_body scenario_blob 2 False = Continue 8 False \<and> 2 + 1 \<le> (8 :: nat) \<and>
   find_next_soi two_jpegs 4 = Some 5 \<and> parse_one_jpeg two_jpegs (int 5) = Inr 9 \<and>
   (4 :: nat) < 9 \<and>
   split_loop two_jpegs 4 1 [(0, 4)] = split_loop two_jpegs 9 (1 + 1) ([(0, 4)] @ [(5, 9)]) \<and>
   find_next_soi bad_length_blob 0 = Some 0 \<and>
   parse_one_jpeg bad_length_blob (int 0) = Inl (ValueError Bad_segment_seglen) \<and>
   (0 :: nat) < 0 + 2 \<and>
   split_loop bad_length_blob 0 0 [] = split_loop bad_length_blob (0 + 2) 0 []"
proof -
  have body: "loop_body scenario_blob 2 False = Continue 8 False" by code_simp
  have found': "find_next_soi bad_length_blob 0 = Some 0" by code_simp
  have failed: "parse_one_jpeg bad_length_blob (int 0) = Inl (ValueError Bad_segment_seglen)"
    by code_simp
  from C9_scan_and_pass_terminate [of bad_length_blob 0 False 0 0 "[]"] found' failed
  have rejected: "(0 :: nat) < 0 + 2 \<and>
      split_loop bad_length_blob 0 0 [] = split_loop bad_length_blob (0 + 2) 0 []"
    by simp
  have found: "find_next_soi two_jpegs 4 = Some 5" by code_simp
  have parsed: "parse_one_jpeg two_jpegs (int 5) = Inr 9" by code_simp
  from C9_scan_and_pass_terminate [of scenario_blob 2 False] body
  have "2 + 1 \<le> (8 :: nat)" by blast
  moreover from C9_scan_and_pass_terminate [of two_jpegs _ _ 4 1 "[(0, 4)]"] found parsed
  have "(4 :: nat) < 9 \<and>
      split_loop two_jpegs 4 1 [(0, 4)] = split_loop two_jpegs 9 (1 + 1) ([(0, 4)] @ [(5, 9)])"
    by blast
  ultimately show ?thesis using body found parsed found' failed rejected by simp
qed

text \<open>
  C10, as amended. \<^verbatim>\<open>parse_one_jpeg\<close> raises \<^verbatim>\<open>start is not at SOI\<close> if and only if
  \<open>start < 0\<close>, \<open>start + 2\<close> exceeds the length of the blob, or the two bytes at \<open>start\<close>
  are not \<open>0xFF 0xD8\<close>. In the first two cases no byte of the blob is read: every blob
  of that length fails alike. In the third only the bytes at \<open>start\<close> and \<open>start + 1\<close>
  are read: every blob of that length with these two bytes fails alike. Whatever it
  raises is a \<^verbatim>\<open>ValueError\<close> of one of its own raise sites.
\<close>

theorem C10_precondition_is_checked:
  "(parse_one_jpeg data start = Inl (ValueError Start_is_not_at_SOI) \<longleftrightarrow>
      start < 0 \<or> int (length data) < start + 2 \<or>
      slice data (nat start) (nat start + 2) \<noteq> SOI) \<and>
   ((start < 0 \<or> int (length data) < start + 2) \<and> length data' = length data \<longrightarrow>
      parse_one_jpeg data' start = Inl (ValueError Start_is_not_at_SOI)) \<and>
   (0 \<le> start \<and> start + 2 \<le> int (length data) \<and>
    slice data (nat start) (nat start + 2) \<noteq> SOI \<and> length data' = length data \<and>
    data' ! nat start = data ! nat start \<and> data' ! (nat start + 1) = data ! (nat start + 1) \<longrightarrow>
      parse_one_jpeg data' start = Inl (ValueError Start_is_not_at_SOI)) \<and>
   (\<forall>x. parse_one_jpeg data start = Inl x \<longrightarrow> (\<exists>m. x = ValueError m))"
proof (intro conjI impI allI)
  fix x assume "parse_one_jpeg data start = Inl x"
  then show "\<exists>m. x = ValueError m" by (rule parse_one_jpeg_Inl)
next
  show "parse_one_jpeg data start = Inl (ValueError Start_is_not_at_SOI) \<longleftrightarrow>
      start < 0 \<or> int (length data) < start + 2 \<or>
      slice data (nat start) (nat start + 2) \<noteq> SOI"
    by (rule parse_one_jpeg_not_at_SOI)
next
  assume "(start < 0 \<or> int (length data) < start + 2) \<and> length data' = length data"
  then show "parse_one_jpeg data' start = Inl (ValueError Start_is_not_at_SOI)"
    by (auto simp: parse_one_jpeg_def)
next
  assume a: "0 \<le> start \<and> start + 2 \<le> int (length data) \<and>
    slice data (nat start) (nat start + 2) \<noteq> SOI \<and> length data' = length data \<and>
    data' ! nat start = data ! nat start \<and> data' ! (nat start + 1) = data ! (nat start + 1)"
  then have l: "nat start + 2 \<le> length data" and l': "nat start + 2 \<le> length data'"
    by linarith+
  from slice_two [OF l] slice_two [OF l'] a
  have "slice data' (nat start) (nat start + 2) = slice data (nat start) (nat start + 2)"
    by simp
  with a show "parse_one_jpeg data' start = Inl (ValueError Start_is_not_at_SOI)"
    by (simp add: parse_one_jpeg_def)
qed

theorem C10_witness:
  "parse_one_jpeg not_a_jpeg 0 = Inl (ValueError Start_is_not_at_SOI) \<and>
   parse_one_jpeg minimal_jpeg (- 1) = Inl (ValueError Start_is_not_at_SOI) \<and>
   parse_one_jpeg minimal_jpeg 3 = Inl (ValueError Start_is_not_at_SOI) \<and>
   parse_one_jpeg minimal_jpeg 0 \<noteq> Inl (ValueError Start_is_not_at_SOI) \<and>
   parse_one_jpeg [0x00, 0xD8, 0x01, 0x02] 0 = Inl (ValueError Start_is_not_at_SOI) \<and>
   (\<exists>m. ValueError EOI_not_found = ValueError m)"
proof -
  have "parse_one_jpeg overrun_blob 0 = Inl (ValueError EOI_not_found)" by code_simp
  with C10_precondition_is_checked [of overrun_blob 0]
  have "\<exists>m. ValueError EOI_not_found = ValueError m" by blast
  moreover
  have a: "slice not_a_jpeg (nat 0) (nat 0 + 2) \<noteq> SOI"
    by (simp add: not_a_jpeg_def slice_def SOI_def)
  have b: "slice minimal_jpeg (nat 0) (nat 0 + 2) = SOI"
    by (simp add: minimal_jpeg_def slice_def SOI_def)
  have "parse_one_jpeg not_a_jpeg 0 = Inl (ValueError Start_is_not_at_SOI)"
    using C10_precondition_is_checked [of not_a_jpeg 0] a by blast
  moreover have "parse_one_jpeg minimal_jpeg (- 1) = Inl (ValueError Start_is_not_at_SOI)"
    using C10_precondition_is_checked [of minimal_jpeg "- 1" minimal_jpeg] by simp
  moreover have "parse_one_jpeg minimal_jpeg 3 = Inl (ValueError Start_is_not_at_SOI)"
    using C10_precondition_is_checked [of minimal_jpeg 3 minimal_jpeg]
    by (simp add: minimal_jpeg_def)
  moreover have "parse_one_jpeg minimal_jpeg 0 \<noteq> Inl (ValueError Start_is_not_at_SOI)"
    using C10_precondition_is_checked [of minimal_jpeg 0] b
    by (simp add: minimal_jpeg_def)
  moreover have "parse_one_jpeg [0x00, 0xD8, 0x01, 0x02] 0 = Inl (ValueError Start_is_not_at_SOI)"
    using C10_precondition_is_checked [of not_a_jpeg 0 "[0x00, 0xD8, 0x01, 0x02]"] a
    by (simp add: not_a_jpeg_def)
  ultimately show ?thesis by simp
qed

text \<open>
  C10 as stated fails where it says that the blob is read at no offset when the two
  bytes at \<open>start\<close> are not the signature: \<^verbatim>\<open>00 D8 FF D9\<close> is rejected at offset 0,
  and \<^verbatim>\<open>FF D8 FF D9\<close>, which differs from it in the byte at offset 0 only, is
  accepted, so that byte is read.
\<close>

theorem C10_counterexample:
  "slice not_a_jpeg 0 2 \<noteq> SOI \<and>
   parse_one_jpeg not_a_jpeg 0 = Inl (ValueError Start_is_not_at_SOI) \<and>
   length minimal_jpeg = length not_a_jpeg \<and>
   drop 1 minimal_jpeg = drop 1 not_a_jpeg \<and>
   parse_one_jpeg minimal_jpeg 0 = Inr 4"
  by code_simp

end
